theory Spec2Isabelle
  imports Main "HOL-Library.AList"
begin

section \<open>Path-granular read/write locks of dvc (dvc/rwlock.py, dvc/lock.py)\<close>

text \<open>
  The development follows the two modules function by function. A Python name that
  starts with an underscore loses it (\<open>_acquire_read\<close> is \<open>acquire_read\<close>), the body of a
  \<open>for\<close> loop is the function with the suffix \<open>_path\<close>, and \<open>os.getpid()\<close> is the
  explicit argument \<open>pid\<close>. The context manager \<open>_rwlock\<close> is \<open>rwlock_cm\<close>, the two
  blocks of \<open>rwlock\<close> are \<open>rwlock_enter\<close> and \<open>rwlock_exit\<close>, and the method
  \<open>Lock.lock\<close> is \<open>Lock_lock\<close>.
\<close>

subsection \<open>Errors\<close>

text \<open>
  \<open>LockError\<close> (dvc/lock.py) carries a formatted message. The two messages of
  dvc/rwlock.py are kept as the values filled into the format string; the message of
  dvc/lock.py is a fixed text. \<open>KeyError\<close> is Python's error of a subscript on a key
  the dictionary lacks, with that key. \<open>Invalid\<close> is the error the compiled schema
  raises on data that does not conform. \<open>UnicodeDecodeError\<close> is raised by reading a
  file whose bytes are not text in the encoding of \<open>open\<close>, and \<open>OSError\<close> stands for
  the errors of \<open>open\<close> other than \<open>FileNotFoundError\<close> (no permission, a directory).
\<close>

datatype message =
    Busy_written string int
  | Busy_read string "int list"
  | Fixed string

datatype error =
    LockError message
  | KeyError string
  | Invalid
  | UnicodeDecodeError
  | OSError

definition and_then :: "error + 'a \<Rightarrow> ('a \<Rightarrow> error + 'b) \<Rightarrow> error + 'b" where
  "and_then r f = (case r of Inl e \<Rightarrow> Inl e | Inr x \<Rightarrow> f x)"

subsection \<open>The lock state\<close>

text \<open>
  The schema is \<open>{Optional(str): {Optional("writer"): int, Optional("readers"): [int]}}\<close>:
  an entry is a dictionary with at most the keys \<open>writer\<close> and \<open>readers\<close>, so each
  field is optional. The state is a dictionary from paths to entries, kept as the list
  of its items in insertion order: \<open>lock[path] = e\<close> is \<open>AList.update\<close> (in place for a
  key that is there, at the end for a new one), \<open>del lock[path]\<close> is \<open>AList.delete\<close>,
  \<open>path in lock\<close> is \<open>contains\<close>.
\<close>

record entry =
  writer :: "int option"
  readers :: "int list option"

type_synonym lock_state = "(string \<times> entry) list"

definition contains :: "lock_state \<Rightarrow> string \<Rightarrow> bool" where
  "contains lock path = (map_of lock path \<noteq> None)"

definition getitem :: "lock_state \<Rightarrow> string \<Rightarrow> error + entry" where
  "getitem lock path =
     (case map_of lock path of None \<Rightarrow> Inl (KeyError path) | Some e \<Rightarrow> Inr e)"

text \<open>\<open>not lock[path]\<close>: the entry is the empty dictionary.\<close>

definition is_empty_entry :: "entry \<Rightarrow> bool" where
  "is_empty_entry e = (writer e = None \<and> readers e = None)"

subsection \<open>The conflict checks\<close>

text \<open>
  \<open>if writer:\<close> on the result of \<open>.get("writer")\<close> is Python's truth test: the key is
  there and its integer is not zero. \<open>if readers:\<close> likewise: the key is there and the
  list is not empty.
\<close>

definition check_no_writer :: "lock_state \<Rightarrow> string \<Rightarrow> error + unit" where
  "check_no_writer lock path =
     and_then (getitem lock path) (\<lambda>e.
       case writer e of
         None \<Rightarrow> Inr ()
       | Some w \<Rightarrow> if w \<noteq> 0 then Inl (LockError (Busy_written path w)) else Inr ())"

definition check_no_readers :: "lock_state \<Rightarrow> string \<Rightarrow> error + unit" where
  "check_no_readers lock path =
     and_then (getitem lock path) (\<lambda>e.
       case readers e of
         None \<Rightarrow> Inr ()
       | Some rs \<Rightarrow> if rs \<noteq> [] then Inl (LockError (Busy_read path rs)) else Inr ())"

subsection \<open>Acquire\<close>

text \<open>
  One round of the loop of \<open>_acquire_read\<close>. The last line,
  \<open>lock[path]["readers"].append(os.getpid())\<close>, subscripts the entry with
  \<open>"readers"\<close>: on an entry without that key it raises \<open>KeyError\<close>.
\<close>

definition acquire_read_path :: "int \<Rightarrow> lock_state \<Rightarrow> string \<Rightarrow> error + lock_state" where
  "acquire_read_path pid lock path =
     and_then
       (if contains lock path
        then and_then (check_no_writer lock path) (\<lambda>_. Inr lock)
        else Inr (AList.update path \<lparr>writer = None, readers = Some []\<rparr> lock))
       (\<lambda>lock1.
          and_then (getitem lock1 path) (\<lambda>e.
            case readers e of
              None \<Rightarrow> Inl (KeyError ''readers'')
            | Some rs \<Rightarrow> Inr (AList.update path (e\<lparr>readers := Some (rs @ [pid])\<rparr>) lock1)))"

fun acquire_read :: "int \<Rightarrow> lock_state \<Rightarrow> string list \<Rightarrow> error + lock_state" where
  "acquire_read pid lock [] = Inr lock"
| "acquire_read pid lock (path # paths) =
     (case acquire_read_path pid lock path of
        Inl e \<Rightarrow> Inl e
      | Inr lock1 \<Rightarrow> acquire_read pid lock1 paths)"

definition acquire_write_path :: "int \<Rightarrow> lock_state \<Rightarrow> string \<Rightarrow> error + lock_state" where
  "acquire_write_path pid lock path =
     and_then
       (if contains lock path
        then and_then (check_no_writer lock path) (\<lambda>_. check_no_readers lock path)
        else Inr ())
       (\<lambda>_. Inr (AList.update path \<lparr>writer = Some pid, readers = None\<rparr> lock))"

fun acquire_write :: "int \<Rightarrow> lock_state \<Rightarrow> string list \<Rightarrow> error + lock_state" where
  "acquire_write pid lock [] = Inr lock"
| "acquire_write pid lock (path # paths) =
     (case acquire_write_path pid lock path of
        Inl e \<Rightarrow> Inl e
      | Inr lock1 \<Rightarrow> acquire_write pid lock1 paths)"

subsection \<open>Release\<close>

text \<open>
  \<open>readers = lock[path]["readers"]\<close> and \<open>writer = lock[path]["writer"]\<close> are plain
  subscripts, so each raises \<open>KeyError\<close> on an entry without its key.
  \<open>readers.remove(pid)\<close> removes the first occurrence and works on the list the entry
  holds. The final \<open>if not lock[path]: del lock[path]\<close> prunes an entry left with no key.
\<close>

definition prune :: "lock_state \<Rightarrow> string \<Rightarrow> entry \<Rightarrow> lock_state" where
  "prune lock path e =
     (if is_empty_entry e then AList.delete path lock else AList.update path e lock)"

definition release_read_path :: "int \<Rightarrow> lock_state \<Rightarrow> string \<Rightarrow> error + lock_state" where
  "release_read_path pid lock path =
     (if \<not> contains lock path then Inr lock
      else and_then (getitem lock path) (\<lambda>e.
        case readers e of
          None \<Rightarrow> Inl (KeyError ''readers'')
        | Some rs \<Rightarrow>
            (let rs1 = (if pid \<in> set rs then remove1 pid rs else rs);
                 e1 = (if rs1 = [] then e\<lparr>readers := None\<rparr> else e\<lparr>readers := Some rs1\<rparr>)
             in Inr (prune lock path e1))))"

fun release_read :: "int \<Rightarrow> lock_state \<Rightarrow> string list \<Rightarrow> error + lock_state" where
  "release_read pid lock [] = Inr lock"
| "release_read pid lock (path # paths) =
     (case release_read_path pid lock path of
        Inl e \<Rightarrow> Inl e
      | Inr lock1 \<Rightarrow> release_read pid lock1 paths)"

definition release_write_path :: "int \<Rightarrow> lock_state \<Rightarrow> string \<Rightarrow> error + lock_state" where
  "release_write_path pid lock path =
     (if \<not> contains lock path then Inr lock
      else and_then (getitem lock path) (\<lambda>e.
        case writer e of
          None \<Rightarrow> Inl (KeyError ''writer'')
        | Some w \<Rightarrow>
            (let e1 = (if w = pid then e\<lparr>writer := None\<rparr> else e)
             in Inr (prune lock path e1))))"

fun release_write :: "int \<Rightarrow> lock_state \<Rightarrow> string list \<Rightarrow> error + lock_state" where
  "release_write pid lock [] = Inr lock"
| "release_write pid lock (path # paths) =
     (case release_write_path pid lock path of
        Inl e \<Rightarrow> Inl e
      | Inr lock1 \<Rightarrow> release_write pid lock1 paths)"

subsection \<open>The two critical sections of \<open>rwlock\<close>\<close>

text \<open>
  The bodies of the two \<open>with _rwlock(tmp_dir) as lock:\<close> blocks: reads before writes
  on the way in, writes before reads on the way out.
\<close>

definition acquire :: "int \<Rightarrow> lock_state \<Rightarrow> string list \<Rightarrow> string list \<Rightarrow> error + lock_state" where
  "acquire pid lock read write =
     and_then (acquire_read pid lock read) (\<lambda>lock1. acquire_write pid lock1 write)"

definition release :: "int \<Rightarrow> lock_state \<Rightarrow> string list \<Rightarrow> string list \<Rightarrow> error + lock_state" where
  "release pid lock read write =
     and_then (release_write pid lock write) (\<lambda>lock1. release_read pid lock1 read)"

subsection \<open>Notions used in the statements\<close>

text \<open>
  A writer or a readers list is non-empty when the truth test of the conflict checks
  holds of it. \<open>readers_of\<close> reads the readers of a path, a path or a key that is not
  there counting as no reader.
\<close>

definition has_writer :: "entry \<Rightarrow> bool" where
  "has_writer e = (case writer e of None \<Rightarrow> False | Some w \<Rightarrow> w \<noteq> 0)"

definition has_readers :: "entry \<Rightarrow> bool" where
  "has_readers e = (case readers e of None \<Rightarrow> False | Some rs \<Rightarrow> rs \<noteq> [])"

definition readers_of :: "lock_state \<Rightarrow> string \<Rightarrow> int list" where
  "readers_of lock path =
     (case map_of lock path of
        None \<Rightarrow> []
      | Some e \<Rightarrow> (case readers e of None \<Rightarrow> [] | Some rs \<Rightarrow> rs))"

text \<open>
  The documents that sequences of calls can leave behind, from the empty one. A critical
  section that raises saves nothing, so only the bodies that return change the document;
  the process, the read list and the write list of each call are arbitrary.
\<close>

inductive reachable :: "lock_state \<Rightarrow> bool" where
  reachable_empty: "reachable []"
| reachable_acquire:
    "reachable lock \<Longrightarrow> acquire pid lock read write = Inr lock1 \<Longrightarrow> reachable lock1"
| reachable_release:
    "reachable lock \<Longrightarrow> release pid lock read write = Inr lock1 \<Longrightarrow> reachable lock1"

text \<open>The invariant behind it: no entry carries both keys.\<close>

definition exclusive :: "entry \<Rightarrow> bool" where
  "exclusive e = (writer e = None \<or> readers e = None)"

definition all_exclusive :: "lock_state \<Rightarrow> bool" where
  "all_exclusive lock = list_all (\<lambda>(path, e). exclusive e) lock"

text \<open>\<open>writer_of\<close> reads the writer key of a path, \<open>None\<close> when the path or the key is not there.\<close>

definition writer_of :: "lock_state \<Rightarrow> string \<Rightarrow> int option" where
  "writer_of lock path = (case map_of lock path of None \<Rightarrow> None | Some e \<Rightarrow> writer e)"

text \<open>
  Entries of other paths that stand before the ones a call works on are a frame: the
  call leaves them where they are. \<open>framed\<close> puts the frame back before a result.
\<close>

definition framed :: "lock_state \<Rightarrow> error + lock_state \<Rightarrow> error + lock_state" where
  "framed frame r = (case r of Inl e \<Rightarrow> Inl e | Inr lock \<Rightarrow> Inr (frame @ lock))"

subsection \<open>The lock document on disk\<close>

text \<open>
  What \<open>json.load\<close> returns: the Python value of a JSON text. A dictionary is the list of
  its items (its keys are distinct, as in any dictionary). \<open>PFloat\<close> is any float: the
  schema rejects every float, whatever its value.
\<close>

datatype pyobj =
    PNone
  | PBool bool
  | PInt int
  | PFloat
  | PStr string
  | PList "pyobj list"
  | PDict "(string \<times> pyobj) list"

text \<open>
  The file \<open>rwlock\<close> of the lock directory, as \<open>_rwlock\<close> meets it: \<open>open\<close> raises
  \<open>FileNotFoundError\<close> (\<open>Missing\<close>), \<open>json.load\<close> raises \<open>JSONDecodeError\<close>
  (\<open>Unparsable\<close>), \<open>open\<close> or \<open>json.load\<close> raises another exception (\<open>Unreadable\<close>, with
  the exception: \<open>UnicodeDecodeError\<close> for bytes that are not text, \<open>OSError\<close> for a
  file that may not be opened), or \<open>json.load\<close> returns a value (\<open>Parsed\<close>).
\<close>

datatype document = Missing | Unparsable | Unreadable error | Parsed pyobj

text \<open>
  The \<open>try\<close> statement of \<open>_rwlock\<close>: the two exceptions it names give \<open>{}\<close>, any
  other one leaves the function.
\<close>

definition read_document :: "document \<Rightarrow> error + pyobj" where
  "read_document f =
     (case f of
        Missing \<Rightarrow> Inr (PDict [])
      | Unparsable \<Rightarrow> Inr (PDict [])
      | Unreadable e \<Rightarrow> Inl e
      | Parsed d \<Rightarrow> Inr d)"

text \<open>
  \<open>COMPLIED_SCHEMA = Schema({Optional(str): {Optional("writer"): int, Optional("readers"): [int]}})\<close>.
  A compiled schema returns the validated data or raises. The type \<open>int\<close> as a schema
  accepts the instances of \<open>int\<close>, of which Python's \<open>bool\<close> is a subclass (\<open>True == 1\<close>);
  \<open>[int]\<close> accepts a list all of whose elements are accepted by \<open>int\<close>; a dictionary schema
  accepts a dictionary whose keys are all among the schema's (no extra keys) and whose
  values are accepted; every key here is optional.
\<close>

fun validate_int :: "pyobj \<Rightarrow> error + int" where
  "validate_int (PInt i) = Inr i"
| "validate_int (PBool b) = Inr (if b then 1 else 0)"
| "validate_int _ = Inl Invalid"

fun validate_ints :: "pyobj list \<Rightarrow> error + int list" where
  "validate_ints [] = Inr []"
| "validate_ints (x # xs) =
     and_then (validate_int x) (\<lambda>i. and_then (validate_ints xs) (\<lambda>is. Inr (i # is)))"

fun validate_readers :: "pyobj \<Rightarrow> error + int list" where
  "validate_readers (PList xs) = validate_ints xs"
| "validate_readers _ = Inl Invalid"

fun validate_fields :: "(string \<times> pyobj) list \<Rightarrow> entry \<Rightarrow> error + entry" where
  "validate_fields [] e = Inr e"
| "validate_fields ((k, v) # kvs) e =
     (if k = ''writer''
      then and_then (validate_int v) (\<lambda>w. validate_fields kvs (e\<lparr>writer := Some w\<rparr>))
      else if k = ''readers''
      then and_then (validate_readers v) (\<lambda>rs. validate_fields kvs (e\<lparr>readers := Some rs\<rparr>))
      else Inl Invalid)"

fun validate_entry :: "pyobj \<Rightarrow> error + entry" where
  "validate_entry (PDict kvs) = validate_fields kvs \<lparr>writer = None, readers = None\<rparr>"
| "validate_entry _ = Inl Invalid"

fun validate_items :: "(string \<times> pyobj) list \<Rightarrow> error + lock_state" where
  "validate_items [] = Inr []"
| "validate_items ((k, v) # kvs) =
     and_then (validate_entry v) (\<lambda>e. and_then (validate_items kvs) (\<lambda>lock. Inr ((k, e) # lock)))"

fun COMPLIED_SCHEMA :: "pyobj \<Rightarrow> error + lock_state" where
  "COMPLIED_SCHEMA (PDict kvs) = validate_items kvs"
| "COMPLIED_SCHEMA _ = Inl Invalid"






text \<open>
  \<open>json.dump(rwlock, fobj)\<close> leaves a file that parses to the state it was given; the
  write itself is taken to succeed.
\<close>

definition dump_entry :: "entry \<Rightarrow> pyobj" where
  "dump_entry e =
     PDict ((case writer e of None \<Rightarrow> [] | Some w \<Rightarrow> [(''writer'', PInt w)]) @
            (case readers e of None \<Rightarrow> [] | Some rs \<Rightarrow> [(''readers'', PList (map PInt rs))]))"

definition json_dump :: "lock_state \<Rightarrow> pyobj" where
  "json_dump lock = PDict (map (\<lambda>(path, e). (path, dump_entry e)) lock)"

text \<open>
  The context manager \<open>_rwlock\<close>, with the body of the \<open>with\<close> block as a function of
  the state it is handed. Only \<open>FileNotFoundError\<close> and \<open>JSONDecodeError\<close> are caught, and
  both give \<open>{}\<close>; any other exception of the read leaves the function, and so does what
  the schema raises, since it is applied after the \<open>try\<close>. An exception of the body is raised at the \<open>yield\<close> and the lines after it, which
  write the file, are not run. \<open>convert_to_unicode\<close> belongs to another module
  (dvc/utils/compat.py) and is a parameter.
\<close>

definition rwlock_cm ::
  "(pyobj \<Rightarrow> pyobj) \<Rightarrow> document \<Rightarrow> (lock_state \<Rightarrow> error + lock_state) \<Rightarrow> (error + unit) \<times> document" where
  "rwlock_cm convert_to_unicode f body =
     (case read_document f of
        Inl e \<Rightarrow> (Inl e, f)
      | Inr rwlock \<Rightarrow>
          (case COMPLIED_SCHEMA (convert_to_unicode rwlock) of
             Inl e \<Rightarrow> (Inl e, f)
           | Inr lock \<Rightarrow>
               (case body lock of
                  Inl e \<Rightarrow> (Inl e, f)
                | Inr lock1 \<Rightarrow> (Inr (), Parsed (json_dump lock1)))))"

text \<open>The two \<open>with _rwlock(tmp_dir) as lock:\<close> blocks of \<open>rwlock\<close>, on the file.\<close>

definition rwlock_enter ::
  "(pyobj \<Rightarrow> pyobj) \<Rightarrow> document \<Rightarrow> int \<Rightarrow> string list \<Rightarrow> string list \<Rightarrow> (error + unit) \<times> document" where
  "rwlock_enter convert_to_unicode f pid read write =
     rwlock_cm convert_to_unicode f (\<lambda>lock. acquire pid lock read write)"

definition rwlock_exit ::
  "(pyobj \<Rightarrow> pyobj) \<Rightarrow> document \<Rightarrow> int \<Rightarrow> string list \<Rightarrow> string list \<Rightarrow> (error + unit) \<times> document" where
  "rwlock_exit convert_to_unicode f pid read write =
     rwlock_cm convert_to_unicode f (\<lambda>lock. release pid lock read write)"

text \<open>
  The files that sequences of the two blocks can leave behind, from no file at all;
  here a block that raises is a step as well.
\<close>

inductive saved :: "(pyobj \<Rightarrow> pyobj) \<Rightarrow> document \<Rightarrow> bool"
  for convert_to_unicode :: "pyobj \<Rightarrow> pyobj" where
  saved_start: "saved convert_to_unicode Missing"
| saved_enter:
    "saved convert_to_unicode f \<Longrightarrow>
     rwlock_enter convert_to_unicode f pid read write = (r, f1) \<Longrightarrow>
     saved convert_to_unicode f1"
| saved_exit:
    "saved convert_to_unicode f \<Longrightarrow>
     rwlock_exit convert_to_unicode f pid read write = (r, f1) \<Longrightarrow>
     saved convert_to_unicode f1"

subsection \<open>The repository lock (dvc/lock.py)\<close>

definition DEFAULT_TIMEOUT :: nat where
  "DEFAULT_TIMEOUT = 5"

definition FAILED_TO_LOCK_MESSAGE :: string where
  "FAILED_TO_LOCK_MESSAGE =
     ''cannot perform the command because another DVC process seems to be '' @
     ''running on this project. If that is not the case, manually remove '' @
     ''`.dvc/lock` and try again.''"

text \<open>
  What a call of \<open>lock\<close> does to the world is the sequence of its attempts on the lock
  file and of its sleeps, in seconds. \<open>held\<close> says that \<open>self._lock\<close> holds a lock file
  (it is not \<open>None\<close>).
\<close>

datatype event = Attempt | Sleep nat

record gate =
  held :: bool
  trace :: "event list"

text \<open>
  \<open>zc.lockfile.LockFile(self.lockfile)\<close> raises \<open>zc.lockfile.LockError\<close> when another
  process holds the file. Whether it does is up to the other processes: \<open>taken n\<close> says
  that the file is held by another process at attempt number \<open>n\<close> (from 0) made on it.
\<close>

definition do_lock :: "(nat \<Rightarrow> bool) \<Rightarrow> gate \<Rightarrow> (error + unit) \<times> gate" where
  "do_lock taken g =
     (let n = count_list (trace g) Attempt;
          g1 = g\<lparr>trace := trace g @ [Attempt]\<rparr>
      in if taken n
         then (Inl (LockError (Fixed FAILED_TO_LOCK_MESSAGE)), g1)
         else (Inr (), g1\<lparr>held := True\<rparr>))"

definition sleep :: "nat \<Rightarrow> gate \<Rightarrow> gate" where
  "sleep seconds g = g\<lparr>trace := trace g @ [Sleep seconds]\<rparr>"

text \<open>
  \<open>Lock.lock\<close>: the \<open>except LockError\<close> clause catches the error of the first attempt
  and sleeps; the second \<open>self._do_lock()\<close> stands outside the \<open>try\<close>, so its error leaves
  the method.
\<close>

definition Lock_lock :: "(nat \<Rightarrow> bool) \<Rightarrow> gate \<Rightarrow> (error + unit) \<times> gate" where
  "Lock_lock taken g =
     (case do_lock taken g of
        (Inr u, g1) \<Rightarrow> (Inr u, g1)
      | (Inl (LockError m), g1) \<Rightarrow> do_lock taken (sleep DEFAULT_TIMEOUT g1)
      | (Inl e, g1) \<Rightarrow> (Inl e, g1))"

section \<open>Basic facts\<close>

lemma and_then_Inl [simp]: "and_then (Inl e) f = Inl e"
  by (simp add: and_then_def)

lemma and_then_Inr [simp]: "and_then (Inr x) f = f x"
  by (simp add: and_then_def)

lemma and_then_eq_Inr: "and_then r f = Inr y \<longleftrightarrow> (\<exists>x. r = Inr x \<and> f x = Inr y)"
  by (cases r) simp_all

subsection \<open>Each round of a loop, by the entry it finds\<close>

lemma acquire_write_path_cases:
  "acquire_write_path pid lock path =
     (case map_of lock path of
        None \<Rightarrow> Inr (AList.update path \<lparr>writer = Some pid, readers = None\<rparr> lock)
      | Some e \<Rightarrow>
          if has_writer e then Inl (LockError (Busy_written path (the (writer e))))
          else if has_readers e then Inl (LockError (Busy_read path (the (readers e))))
          else Inr (AList.update path \<lparr>writer = Some pid, readers = None\<rparr> lock))"
  by (auto simp: acquire_write_path_def contains_def check_no_writer_def check_no_readers_def
      getitem_def has_writer_def has_readers_def split: option.splits)

lemma acquire_read_path_cases:
  "acquire_read_path pid lock path =
     (case map_of lock path of
        None \<Rightarrow> Inr (AList.update path \<lparr>writer = None, readers = Some [pid]\<rparr> lock)
      | Some e \<Rightarrow>
          if has_writer e then Inl (LockError (Busy_written path (the (writer e))))
          else (case readers e of
                  None \<Rightarrow> Inl (KeyError ''readers'')
                | Some rs \<Rightarrow> Inr (AList.update path (e\<lparr>readers := Some (rs @ [pid])\<rparr>) lock)))"
  by (auto simp: acquire_read_path_def contains_def check_no_writer_def
      getitem_def has_writer_def update_conv' split: option.splits)

lemma release_read_path_cases:
  "release_read_path pid lock path =
     (case map_of lock path of
        None \<Rightarrow> Inr lock
      | Some e \<Rightarrow>
          (case readers e of
             None \<Rightarrow> Inl (KeyError ''readers'')
           | Some rs \<Rightarrow>
               if remove1 pid rs = [] then
                 (if writer e = None then Inr (AList.delete path lock)
                  else Inr (AList.update path (e\<lparr>readers := None\<rparr>) lock))
               else Inr (AList.update path (e\<lparr>readers := Some (remove1 pid rs)\<rparr>) lock)))"
  by (auto simp: release_read_path_def contains_def getitem_def prune_def is_empty_entry_def
      Let_def remove1_idem split: option.splits)

lemma release_write_path_cases:
  "release_write_path pid lock path =
     (case map_of lock path of
        None \<Rightarrow> Inr lock
      | Some e \<Rightarrow>
          (case writer e of
             None \<Rightarrow> Inl (KeyError ''writer'')
           | Some w \<Rightarrow>
               if w = pid then
                 (if readers e = None then Inr (AList.delete path lock)
                  else Inr (AList.update path (e\<lparr>writer := None\<rparr>) lock))
               else Inr lock))"
  by (auto simp: release_write_path_def contains_def getitem_def prune_def is_empty_entry_def
      Let_def update_triv split: option.splits)

section \<open>Writer and readers exclude each other\<close>

lemma set_update_subset: "set (AList.update k v al) \<subseteq> insert (k, v) (set al)"
  by (induction al) auto

lemma set_delete_subset: "set (AList.delete k al) \<subseteq> set al"
  by (auto simp: AList.delete_eq)

lemma all_exclusive_update:
  "all_exclusive lock \<Longrightarrow> exclusive e \<Longrightarrow> all_exclusive (AList.update path e lock)"
  using set_update_subset [of path e lock]
  by (auto simp: all_exclusive_def list_all_iff)

lemma all_exclusive_delete: "all_exclusive lock \<Longrightarrow> all_exclusive (AList.delete path lock)"
  using set_delete_subset [of path lock]
  by (auto simp: all_exclusive_def list_all_iff)

lemma all_exclusive_lookup: "all_exclusive lock \<Longrightarrow> map_of lock path = Some e \<Longrightarrow> exclusive e"
  by (auto simp: all_exclusive_def list_all_iff dest: map_of_SomeD)

lemma acquire_read_path_exclusive:
  assumes "all_exclusive lock" and "acquire_read_path pid lock path = Inr lock1"
  shows "all_exclusive lock1"
proof (cases "map_of lock path")
  case None
  with assms show ?thesis
    by (auto simp: acquire_read_path_cases exclusive_def intro!: all_exclusive_update)
next
  case (Some e)
  with assms(1) have "exclusive e" by (rule all_exclusive_lookup)
  with assms Some show ?thesis
    by (auto simp: acquire_read_path_cases exclusive_def
        split: if_splits option.splits intro!: all_exclusive_update)
qed

lemma acquire_write_path_exclusive:
  assumes "all_exclusive lock" and "acquire_write_path pid lock path = Inr lock1"
  shows "all_exclusive lock1"
  using assms
  by (auto simp: acquire_write_path_cases exclusive_def
      split: if_splits option.splits intro!: all_exclusive_update)

lemma release_read_path_exclusive:
  assumes "all_exclusive lock" and "release_read_path pid lock path = Inr lock1"
  shows "all_exclusive lock1"
proof (cases "map_of lock path")
  case None
  with assms show ?thesis by (simp add: release_read_path_cases)
next
  case (Some e)
  with assms(1) have "exclusive e" by (rule all_exclusive_lookup)
  with assms Some show ?thesis
    by (auto simp: release_read_path_cases exclusive_def
        split: if_splits option.splits intro!: all_exclusive_update all_exclusive_delete)
qed

lemma release_write_path_exclusive:
  assumes "all_exclusive lock" and "release_write_path pid lock path = Inr lock1"
  shows "all_exclusive lock1"
proof (cases "map_of lock path")
  case None
  with assms show ?thesis by (simp add: release_write_path_cases)
next
  case (Some e)
  with assms(1) have "exclusive e" by (rule all_exclusive_lookup)
  with assms Some show ?thesis
    by (auto simp: release_write_path_cases exclusive_def
        split: if_splits option.splits intro!: all_exclusive_update all_exclusive_delete)
qed

lemma acquire_read_exclusive:
  "all_exclusive lock \<Longrightarrow> acquire_read pid lock paths = Inr lock1 \<Longrightarrow> all_exclusive lock1"
  by (induction paths arbitrary: lock)
     (auto split: sum.splits dest: acquire_read_path_exclusive)

lemma acquire_write_exclusive:
  "all_exclusive lock \<Longrightarrow> acquire_write pid lock paths = Inr lock1 \<Longrightarrow> all_exclusive lock1"
  by (induction paths arbitrary: lock)
     (auto split: sum.splits dest: acquire_write_path_exclusive)

lemma release_read_exclusive:
  "all_exclusive lock \<Longrightarrow> release_read pid lock paths = Inr lock1 \<Longrightarrow> all_exclusive lock1"
  by (induction paths arbitrary: lock)
     (auto split: sum.splits dest: release_read_path_exclusive)

lemma release_write_exclusive:
  "all_exclusive lock \<Longrightarrow> release_write pid lock paths = Inr lock1 \<Longrightarrow> all_exclusive lock1"
  by (induction paths arbitrary: lock)
     (auto split: sum.splits dest: release_write_path_exclusive)

lemma reachable_exclusive: "reachable lock \<Longrightarrow> all_exclusive lock"
proof (induction rule: reachable.induct)
  case reachable_empty
  show ?case by (simp add: all_exclusive_def)
next
  case (reachable_acquire lock pid read "write" lock1)
  then show ?case
    by (auto simp: acquire_def and_then_eq_Inr
        dest: acquire_read_exclusive acquire_write_exclusive)
next
  case (reachable_release lock pid read "write" lock1)
  then show ?case
    by (auto simp: release_def and_then_eq_Inr
        dest: release_read_exclusive release_write_exclusive)
qed

text \<open>
  C1. In every document reachable from the empty one by acquire and release calls, no
  entry has a non-empty writer and a non-empty readers list at once; indeed no entry
  carries both keys.
\<close>

theorem never_writer_and_readers:
  assumes "reachable lock" and "(path, e) \<in> set lock"
  shows "(writer e = None \<or> readers e = None) \<and> \<not> (has_writer e \<and> has_readers e)"
proof -
  from assms(1) have "all_exclusive lock" by (rule reachable_exclusive)
  with assms(2) have "exclusive e"
    by (auto simp: all_exclusive_def list_all_iff)
  then show ?thesis
    by (auto simp: exclusive_def has_writer_def has_readers_def)
qed

theorem never_writer_and_readers_witness:
  "reachable [(''data/foo'', \<lparr>writer = None, readers = Some [100]\<rparr>)]
   \<and> (''data/foo'', \<lparr>writer = None, readers = Some [100]\<rparr>)
       \<in> set [(''data/foo'', \<lparr>writer = None, readers = Some [100]\<rparr>)]
   \<and> \<not> (has_writer \<lparr>writer = None, readers = Some [100]\<rparr>
          \<and> has_readers \<lparr>writer = None, readers = Some [100]\<rparr>)"
proof -
  have step: "acquire 100 [] [''data/foo''] [] = Inr [(''data/foo'', \<lparr>writer = None, readers = Some [100]\<rparr>)]"
    by (simp add: acquire_def acquire_read_path_cases)
  have r: "reachable [(''data/foo'', \<lparr>writer = None, readers = Some [100]\<rparr>)]"
    by (rule reachable_acquire [OF reachable_empty step])
  have m: "(''data/foo'', \<lparr>writer = None, readers = Some [100]\<rparr>)
       \<in> set [(''data/foo'', \<lparr>writer = None, readers = Some [100]\<rparr>)]"
    by simp
  from never_writer_and_readers [OF r m] r m show ?thesis by blast
qed

section \<open>Conflicts\<close>

lemma acquire_write_append:
  "acquire_write pid lock (ps @ qs) =
     (case acquire_write pid lock ps of Inl e \<Rightarrow> Inl e | Inr lock1 \<Rightarrow> acquire_write pid lock1 qs)"
  by (induction ps arbitrary: lock) (simp_all split: sum.splits)

text \<open>
  C5. When the loop of \<open>_acquire_write\<close> comes to a path whose entry has a non-empty
  writer, the call fails with the \<open>LockError\<close> of that path and that writer, whatever
  the readers of the entry are; the \<open>LockError\<close> of the path and its readers is raised
  exactly when the writer is empty and the readers are not. With neither, the entry is
  replaced and the loop goes on.
\<close>

theorem writer_conflict_reported_first:
  assumes "acquire_write pid lock before = Inr lock1"
      and "map_of lock1 path = Some e"
  shows "(\<forall>w. writer e = Some w \<and> w \<noteq> 0 \<longrightarrow>
            acquire_write pid lock (before @ path # rest) = Inl (LockError (Busy_written path w)))
       \<and> (\<forall>rs. \<not> has_writer e \<and> readers e = Some rs \<and> rs \<noteq> [] \<longrightarrow>
            acquire_write pid lock (before @ path # rest) = Inl (LockError (Busy_read path rs)))
       \<and> (\<forall>rs. acquire_write_path pid lock1 path = Inl (LockError (Busy_read path rs)) \<longrightarrow>
            \<not> has_writer e \<and> readers e = Some rs \<and> rs \<noteq> [])
       \<and> (\<not> has_writer e \<and> \<not> has_readers e \<longrightarrow>
            acquire_write pid lock (before @ path # rest) =
            acquire_write pid (AList.update path \<lparr>writer = Some pid, readers = None\<rparr> lock1) rest)"
  using assms
  by (auto simp: acquire_write_append acquire_write_path_cases has_writer_def has_readers_def
      split: option.splits if_splits)

theorem writer_conflict_reported_first_witness:
  "acquire_write 200 [(''data/foo'', \<lparr>writer = Some 100, readers = Some [300]\<rparr>)] [] =
     Inr [(''data/foo'', \<lparr>writer = Some 100, readers = Some [300]\<rparr>)]
   \<and> map_of [(''data/foo'', \<lparr>writer = Some 100, readers = Some [300]\<rparr>)] ''data/foo'' =
     Some \<lparr>writer = Some 100, readers = Some [300]\<rparr>
   \<and> acquire_write 200 [(''data/foo'', \<lparr>writer = Some 100, readers = Some [300]\<rparr>)]
        ([] @ ''data/foo'' # []) = Inl (LockError (Busy_written ''data/foo'' 100))"
proof -
  let ?l = "[(''data/foo'', \<lparr>writer = Some 100, readers = Some [300]\<rparr>)]"
  have a: "acquire_write 200 ?l [] = Inr ?l" by simp
  have b: "map_of ?l ''data/foo'' = Some \<lparr>writer = Some 100, readers = Some [300]\<rparr>" by simp
  from writer_conflict_reported_first [OF a b, of "[]"] a b show ?thesis by simp
qed

section \<open>What a completed acquire leaves in the state\<close>

lemma readers_of_update:
  "readers_of (AList.update p e lock) q =
     (if q = p then (case readers e of None \<Rightarrow> [] | Some rs \<Rightarrow> rs) else readers_of lock q)"
  by (simp add: readers_of_def update_conv')

lemma writer_of_update:
  "writer_of (AList.update p e lock) q = (if q = p then writer e else writer_of lock q)"
  by (simp add: writer_of_def update_conv')

lemma acquire_read_path_lookup:
  assumes "acquire_read_path pid lock path = Inr lock1"
  shows "map_of lock1 =
           (map_of lock)(path \<mapsto> \<lparr>writer = writer_of lock path,
                                   readers = Some (readers_of lock path @ [pid])\<rparr>)"
  using assms
  by (cases "map_of lock path")
     (auto simp: acquire_read_path_cases update_conv' writer_of_def readers_of_def
       split: if_splits option.splits)

lemma acquire_read_lookup:
  assumes "acquire_read pid lock paths = Inr lock1"
  shows "map_of lock1 q =
           (if q \<in> set paths
            then Some \<lparr>writer = writer_of lock q,
                       readers = Some (readers_of lock q @ replicate (count_list paths q) pid)\<rparr>
            else map_of lock q)"
  using assms
proof (induction paths arbitrary: lock)
  case Nil
  then show ?case by simp
next
  case (Cons p ps)
  from Cons.prems obtain lock' where
    step: "acquire_read_path pid lock p = Inr lock'" and
    rest: "acquire_read pid lock' ps = Inr lock1"
    by (auto split: sum.splits)
  note look = acquire_read_path_lookup [OF step]
  have w: "writer_of lock' q = writer_of lock q"
    by (simp add: writer_of_def look)
  have r: "readers_of lock' q = readers_of lock q @ (if q = p then [pid] else [])"
    by (simp add: readers_of_def look)
  show ?case
    using Cons.IH [OF rest] w r
    by (auto simp: look replicate_app_Cons_same)
qed

lemma acquire_read_readers_of:
  assumes "acquire_read pid lock paths = Inr lock1"
  shows "readers_of lock1 q = readers_of lock q @ replicate (count_list paths q) pid"
proof (cases "q \<in> set paths")
  case True
  with acquire_read_lookup [OF assms, of q] show ?thesis
    by (simp add: readers_of_def)
next
  case False
  then have "count_list paths q = 0" by (simp add: count_list_0_iff)
  with False acquire_read_lookup [OF assms, of q] show ?thesis
    by (simp add: readers_of_def)
qed

lemma acquire_write_path_lookup:
  assumes "acquire_write_path pid lock path = Inr lock1"
  shows "map_of lock1 = (map_of lock)(path \<mapsto> \<lparr>writer = Some pid, readers = None\<rparr>)"
    and "readers_of lock path = []"
  using assms
  by (auto simp: acquire_write_path_cases update_conv' readers_of_def has_readers_def
       split: if_splits option.splits)

lemma acquire_write_lookup:
  assumes "acquire_write pid lock paths = Inr lock1"
  shows "map_of lock1 q =
           (if q \<in> set paths then Some \<lparr>writer = Some pid, readers = None\<rparr> else map_of lock q)"
  using assms
proof (induction paths arbitrary: lock)
  case Nil
  then show ?case by simp
next
  case (Cons p ps)
  from Cons.prems obtain lock' where
    step: "acquire_write_path pid lock p = Inr lock'" and
    rest: "acquire_write pid lock' ps = Inr lock1"
    by (auto split: sum.splits)
  show ?case
    using Cons.IH [OF rest] acquire_write_path_lookup(1) [OF step]
    by auto
qed

lemma acquire_write_no_readers:
  assumes "acquire_write pid lock paths = Inr lock1" and "q \<in> set paths"
  shows "readers_of lock q = []"
  using assms
proof (induction paths arbitrary: lock)
  case Nil
  then show ?case by simp
next
  case (Cons p ps)
  from Cons.prems obtain lock' where
    step: "acquire_write_path pid lock p = Inr lock'" and
    rest: "acquire_write pid lock' ps = Inr lock1"
    by (auto split: sum.splits)
  show ?case
  proof (cases "q = p")
    case True
    with acquire_write_path_lookup(2) [OF step] show ?thesis by simp
  next
    case False
    with Cons.prems have "q \<in> set ps" by simp
    from Cons.IH [OF rest this] have "readers_of lock' q = []" .
    with False acquire_write_path_lookup(1) [OF step] show ?thesis
      by (simp add: readers_of_def)
  qed
qed

lemma acquire_write_error:
  "acquire_write pid lock paths = Inl e \<Longrightarrow> \<exists>m. e = LockError m"
  by (induction paths arbitrary: lock)
     (auto simp: acquire_write_path_cases split: sum.splits option.splits if_splits)

lemma acquire_read_error:
  assumes "\<forall>q \<in> set paths. map_of lock q = None \<or>
             (\<exists>e. map_of lock q = Some e \<and> (has_writer e \<or> readers e \<noteq> None))"
      and "acquire_read pid lock paths = Inl x"
  shows "\<exists>m. x = LockError m"
  using assms
proof (induction paths arbitrary: lock)
  case Nil
  then show ?case by simp
next
  case (Cons p ps)
  from Cons.prems(1) have here: "map_of lock p = None \<or>
      (\<exists>e. map_of lock p = Some e \<and> (has_writer e \<or> readers e \<noteq> None))"
    by simp
  show ?case
  proof (cases "acquire_read_path pid lock p")
    case (Inl y)
    with Cons.prems(2) have "y = x" by simp
    with Inl here show ?thesis
      by (auto simp: acquire_read_path_cases split: if_splits option.splits)
  next
    case (Inr lock')
    note look = acquire_read_path_lookup [OF Inr]
    from Cons.prems(1) look have "\<forall>q \<in> set ps. map_of lock' q = None \<or>
        (\<exists>e. map_of lock' q = Some e \<and> (has_writer e \<or> readers e \<noteq> None))"
      by auto
    moreover from Inr Cons.prems(2) have "acquire_read pid lock' ps = Inl x" by simp
    ultimately show ?thesis by (rule Cons.IH)
  qed
qed

lemma read_and_write_disjoint:
  assumes "acquire_read pid lock read = Inr lock1"
      and "acquire_write pid lock1 write = Inr lock2"
      and "path \<in> set read"
  shows "path \<notin> set write"
proof
  assume "path \<in> set write"
  with assms(2) have "readers_of lock1 path = []" by (rule acquire_write_no_readers)
  moreover from assms(3) have "count_list read path \<noteq> 0" by (simp add: count_list_0_iff)
  ultimately show False
    using acquire_read_readers_of [OF assms(1), of path] by simp
qed



text \<open>
  C10, as stated, fails. With another read path whose entry carries no key, the call
  ends with the \<open>KeyError\<close> of the read step, not with a \<open>LockError\<close>; with another
  read path that another process is writing, the call fails with that path's writer
  conflict, and neither is the caller registered for the path named twice nor is the
  caller's own process identifier reported.
\<close>

theorem read_and_write_error_is_not_always_own_conflict:
  "acquire 100 [(''data/bar'', \<lparr>writer = None, readers = None\<rparr>)]
     [''data/bar'', ''data/foo''] [''data/foo''] = Inl (KeyError ''readers'')
   \<and> acquire 100 [(''data/bar'', \<lparr>writer = Some 200, readers = None\<rparr>)]
     [''data/bar'', ''data/foo''] [''data/foo''] = Inl (LockError (Busy_written ''data/bar'' 200))
   \<and> map_of [(''data/bar'', \<lparr>writer = None, readers = None\<rparr>)] ''data/foo'' = None
   \<and> map_of [(''data/bar'', \<lparr>writer = Some 200, readers = None\<rparr>)] ''data/foo'' = None"
  by (simp add: acquire_def acquire_read_path_cases has_writer_def)

text \<open>
  C10, amended. A call that names one path for reading and for writing never returns a
  state. It fails with a \<open>LockError\<close> whenever every read path either has no entry or
  has an entry with a non-empty writer or a readers list, and whenever its read step
  completes. For a path that was free, once the read step has completed it has
  registered the caller (once per occurrence), and if no write path before it conflicts
  the write step reports the readers conflict of that path, whose list consists of the
  caller's own process identifier.
\<close>

theorem read_and_write_of_one_path_fails:
  assumes "path \<in> set read" and "path \<in> set write"
  shows "(\<exists>e. acquire pid lock read write = Inl e)
       \<and> ((\<forall>q \<in> set read. map_of lock q = None \<or>
              (\<exists>e. map_of lock q = Some e \<and> (has_writer e \<or> readers e \<noteq> None))) \<longrightarrow>
            (\<exists>m. acquire pid lock read write = Inl (LockError m)))
       \<and> (\<forall>lock1. acquire_read pid lock read = Inr lock1 \<longrightarrow>
            (\<exists>m. acquire pid lock read write = Inl (LockError m)))
       \<and> (\<forall>lock1 lock2 before rest.
            map_of lock path = None \<and> acquire_read pid lock read = Inr lock1 \<and>
            write = before @ path # rest \<and> acquire_write pid lock1 before = Inr lock2 \<longrightarrow>
            map_of lock1 path =
              Some \<lparr>writer = None, readers = Some (replicate (count_list read path) pid)\<rparr> \<and>
            pid \<in> set (replicate (count_list read path) pid) \<and>
            acquire pid lock read write =
              Inl (LockError (Busy_read path (replicate (count_list read path) pid))))"
proof -
  have fails: "\<exists>e. acquire pid lock read write = Inl e"
  proof (cases "acquire pid lock read write")
    case (Inl e)
    then show ?thesis by blast
  next
    case (Inr lock2)
    then obtain lock1 where r: "acquire_read pid lock read = Inr lock1"
      and w: "acquire_write pid lock1 write = Inr lock2"
      by (auto simp: acquire_def and_then_eq_Inr)
    from read_and_write_disjoint [OF r w assms(1)] assms(2) show ?thesis by simp
  qed
  have lock_error: "\<forall>lock1. acquire_read pid lock read = Inr lock1 \<longrightarrow>
      (\<exists>m. acquire pid lock read write = Inl (LockError m))"
  proof (intro allI impI)
    fix lock1
    assume r: "acquire_read pid lock read = Inr lock1"
    from fails obtain e where e: "acquire pid lock read write = Inl e" by blast
    with r have "acquire_write pid lock1 write = Inl e" by (simp add: acquire_def)
    then obtain m where "e = LockError m" by (auto dest: acquire_write_error)
    with e show "\<exists>m. acquire pid lock read write = Inl (LockError m)" by blast
  qed
  have own: "\<forall>lock1 lock2 before rest.
      map_of lock path = None \<and> acquire_read pid lock read = Inr lock1 \<and>
      write = before @ path # rest \<and> acquire_write pid lock1 before = Inr lock2 \<longrightarrow>
      map_of lock1 path =
        Some \<lparr>writer = None, readers = Some (replicate (count_list read path) pid)\<rparr> \<and>
      pid \<in> set (replicate (count_list read path) pid) \<and>
      acquire pid lock read write =
        Inl (LockError (Busy_read path (replicate (count_list read path) pid)))"
  proof (intro allI impI)
    fix lock1 lock2 before rest
    assume a: "map_of lock path = None \<and> acquire_read pid lock read = Inr lock1 \<and>
        write = before @ path # rest \<and> acquire_write pid lock1 before = Inr lock2"
    then have free: "map_of lock path = None" and r: "acquire_read pid lock read = Inr lock1"
      and split: "write = before @ path # rest"
      and b: "acquire_write pid lock1 before = Inr lock2"
      by simp_all
    from assms(1) have k: "count_list read path \<noteq> 0" by (simp add: count_list_0_iff)
    from free acquire_read_lookup [OF r, of path] assms(1)
    have e1: "map_of lock1 path =
        Some \<lparr>writer = None, readers = Some (replicate (count_list read path) pid)\<rparr>"
      by (simp add: writer_of_def readers_of_def)
    have "path \<notin> set before"
      using read_and_write_disjoint [OF r b assms(1)] .
    with acquire_write_lookup [OF b, of path] e1
    have e2: "map_of lock2 path =
        Some \<lparr>writer = None, readers = Some (replicate (count_list read path) pid)\<rparr>"
      by simp
    from k have ne: "replicate (count_list read path) pid \<noteq> []" by simp
    have "acquire_write pid lock1 write =
        Inl (LockError (Busy_read path (replicate (count_list read path) pid)))"
      using b e2 ne
      by (simp add: split acquire_write_append acquire_write_path_cases
          has_writer_def has_readers_def)
    with r have whole: "acquire pid lock read write =
        Inl (LockError (Busy_read path (replicate (count_list read path) pid)))"
      by (simp add: acquire_def)
    from k have mine: "pid \<in> set (replicate (count_list read path) pid)" by simp
    from e1 mine whole
    show "map_of lock1 path =
            Some \<lparr>writer = None, readers = Some (replicate (count_list read path) pid)\<rparr> \<and>
          pid \<in> set (replicate (count_list read path) pid) \<and>
          acquire pid lock read write =
            Inl (LockError (Busy_read path (replicate (count_list read path) pid)))"
      by blast
  qed
  have well_formed: "(\<forall>q \<in> set read. map_of lock q = None \<or>
        (\<exists>e. map_of lock q = Some e \<and> (has_writer e \<or> readers e \<noteq> None))) \<longrightarrow>
      (\<exists>m. acquire pid lock read write = Inl (LockError m))"
  proof
    assume wf: "\<forall>q \<in> set read. map_of lock q = None \<or>
        (\<exists>e. map_of lock q = Some e \<and> (has_writer e \<or> readers e \<noteq> None))"
    show "\<exists>m. acquire pid lock read write = Inl (LockError m)"
    proof (cases "acquire_read pid lock read")
      case (Inl x)
      from acquire_read_error [OF wf Inl] obtain m where "x = LockError m" by blast
      with Inl show ?thesis by (simp add: acquire_def)
    next
      case (Inr lock1)
      with lock_error show ?thesis by blast
    qed
  qed
  from fails well_formed lock_error own show ?thesis by blast
qed

theorem read_and_write_of_one_path_fails_witness:
  "''data/foo'' \<in> set [''data/foo''] \<and>
   acquire 100 [] [''data/foo''] [''data/foo''] = Inl (LockError (Busy_read ''data/foo'' [100])) \<and>
   (\<exists>m. acquire 100 [(''data/bar'', \<lparr>writer = Some 200, readers = None\<rparr>)]
          [''data/bar'', ''data/foo''] [''data/foo''] = Inl (LockError m))"
proof -
  have m: "''data/foo'' \<in> set [''data/foo'']" by simp
  have r: "acquire_read 100 [] [''data/foo''] =
             Inr [(''data/foo'', \<lparr>writer = None, readers = Some [100]\<rparr>)]"
    by (simp add: acquire_read_path_cases)
  have b: "acquire_write 100 [(''data/foo'', \<lparr>writer = None, readers = Some [100]\<rparr>)] [] =
             Inr [(''data/foo'', \<lparr>writer = None, readers = Some [100]\<rparr>)]"
    by simp
  have s: "[''data/foo''] = [] @ ''data/foo'' # []" by simp
  have f: "map_of ([] :: lock_state) ''data/foo'' = None" by simp
  have c: "replicate (count_list [''data/foo''] ''data/foo'') (100 :: int) = [100]" by simp
  from read_and_write_of_one_path_fails [OF m m, of 100 "[]"] f r b s c
  have one: "acquire 100 [] [''data/foo''] [''data/foo''] =
      Inl (LockError (Busy_read ''data/foo'' [100]))"
    by metis
  have m2: "''data/foo'' \<in> set [''data/bar'', ''data/foo'']" by simp
  have wf: "\<forall>q \<in> set [''data/bar'', ''data/foo''].
      map_of [(''data/bar'', \<lparr>writer = Some 200, readers = None\<rparr>)] q = None \<or>
      (\<exists>e. map_of [(''data/bar'', \<lparr>writer = Some 200, readers = None\<rparr>)] q = Some e \<and>
           (has_writer e \<or> readers e \<noteq> None))"
    by (simp add: has_writer_def)
  from read_and_write_of_one_path_fails
    [OF m2 m, of 100 "[(''data/bar'', \<lparr>writer = Some 200, readers = None\<rparr>)]"] wf
  have two: "\<exists>m. acquire 100 [(''data/bar'', \<lparr>writer = Some 200, readers = None\<rparr>)]
      [''data/bar'', ''data/foo''] [''data/foo''] = Inl (LockError m)"
    by blast
  from m one two show ?thesis by blast
qed

section \<open>Subscripts on keys that are not there\<close>

text \<open>
  C6, as stated, fails: an entry with neither key (the schema admits it) has no
  non-empty writer, and the read step raises \<open>KeyError\<close> on it.
\<close>

theorem read_acquire_without_readers_key:
  "acquire_read 100 [(''data/foo'', \<lparr>writer = None, readers = None\<rparr>)] [''data/foo''] =
     Inl (KeyError ''readers'')
   \<and> \<not> has_writer \<lparr>writer = None, readers = None\<rparr>"
  by (simp add: acquire_read_path_cases has_writer_def)

text \<open>
  C6, amended. For a path with no entry, or with an entry that has no non-empty writer
  and carries a readers list, the round of the read loop succeeds: afterwards the path
  has an entry whose readers are the former ones followed by the caller's process
  identifier, its writer key is as before, and no other path has changed.
\<close>

theorem read_acquire_succeeds:
  assumes "map_of lock path = None \<or>
           (\<exists>e. map_of lock path = Some e \<and> \<not> has_writer e \<and> readers e \<noteq> None)"
  shows "\<exists>lock1 e1. acquire_read_path pid lock path = Inr lock1
           \<and> acquire_read pid lock [path] = Inr lock1
           \<and> map_of lock1 path = Some e1
           \<and> readers e1 = Some (readers_of lock path @ [pid])
           \<and> writer e1 = writer_of lock path
           \<and> (\<forall>q. q \<noteq> path \<longrightarrow> map_of lock1 q = map_of lock q)"
proof -
  from assms obtain lock1 where step: "acquire_read_path pid lock path = Inr lock1"
    by (auto simp: acquire_read_path_cases)
  from acquire_read_path_lookup [OF step] step show ?thesis
    by simp
qed

theorem read_acquire_succeeds_witness:
  "(map_of [(''data/foo'', \<lparr>writer = None, readers = Some [100]\<rparr>)] ''data/foo'' = None \<or>
     (\<exists>e. map_of [(''data/foo'', \<lparr>writer = None, readers = Some [100]\<rparr>)] ''data/foo'' = Some e
          \<and> \<not> has_writer e \<and> readers e \<noteq> None))
   \<and> (\<exists>lock1 e1.
         acquire_read_path 200 [(''data/foo'', \<lparr>writer = None, readers = Some [100]\<rparr>)] ''data/foo''
           = Inr lock1
       \<and> map_of lock1 ''data/foo'' = Some e1
       \<and> readers e1 =
           Some (readers_of [(''data/foo'', \<lparr>writer = None, readers = Some [100]\<rparr>)] ''data/foo'' @ [200]))"
proof -
  have h: "map_of [(''data/foo'', \<lparr>writer = None, readers = Some [100]\<rparr>)] ''data/foo'' = None \<or>
     (\<exists>e. map_of [(''data/foo'', \<lparr>writer = None, readers = Some [100]\<rparr>)] ''data/foo'' = Some e
          \<and> \<not> has_writer e \<and> readers e \<noteq> None)"
    by (simp add: has_writer_def)
  from read_acquire_succeeds [OF h, of 200] h show ?thesis by blast
qed

text \<open>
  C3. Releasing a read path whose entry has only a writer, or a write path whose entry
  has only readers, raises \<open>KeyError\<close> instead of passing over the path.
\<close>

theorem release_of_a_path_held_in_the_other_mode:
  "release_read 100 [(''data/foo'', \<lparr>writer = Some 200, readers = None\<rparr>)] [''data/foo''] =
     Inl (KeyError ''readers'')
   \<and> release_write 200 [(''data/foo'', \<lparr>writer = None, readers = Some [100]\<rparr>)] [''data/foo''] =
     Inl (KeyError ''writer'')
   \<and> release 100 [(''data/foo'', \<lparr>writer = Some 200, readers = None\<rparr>)] [''data/foo''] [] =
     Inl (KeyError ''readers'')
   \<and> release 200 [(''data/foo'', \<lparr>writer = None, readers = Some [100]\<rparr>)] [] [''data/foo''] =
     Inl (KeyError ''writer'')"
  by (simp add: release_def release_read_path_cases release_write_path_cases)

text \<open>
  The cases the release loops do pass over: a path with no entry, a readers list without
  the caller, a writer that is another process.
\<close>

lemma release_of_a_path_not_held:
  shows "map_of lock path = None \<Longrightarrow> release_read_path pid lock path = Inr lock"
    and "map_of lock path = None \<Longrightarrow> release_write_path pid lock path = Inr lock"
    and "map_of lock path = Some e \<Longrightarrow> readers e = Some rs \<Longrightarrow> rs \<noteq> [] \<Longrightarrow> pid \<notin> set rs \<Longrightarrow>
         release_read_path pid lock path = Inr lock"
    and "map_of lock path = Some e \<Longrightarrow> writer e = Some w \<Longrightarrow> w \<noteq> pid \<Longrightarrow>
         release_write_path pid lock path = Inr lock"
  by (simp_all add: release_read_path_cases release_write_path_cases remove1_idem update_triv)

section \<open>Acquire and release of free paths\<close>

lemma framed_simps [simp]:
  "framed frame (Inl e) = Inl e"
  "framed frame (Inr lock) = Inr (frame @ lock)"
  by (simp_all add: framed_def)

lemma map_of_frame:
  "map_of frame k = None \<Longrightarrow> (map_of lock ++ map_of frame) k = map_of lock k"
  by (simp add: map_add_def)

lemma update_frame:
  "map_of frame k = None \<Longrightarrow> AList.update k v (frame @ lock) = frame @ AList.update k v lock"
  by (induction frame) (auto split: if_splits)

lemma delete_frame:
  "map_of frame k = None \<Longrightarrow> AList.delete k (frame @ lock) = frame @ AList.delete k lock"
  by (induction frame) (auto split: if_splits)

lemma acquire_read_path_frame:
  "map_of frame path = None \<Longrightarrow>
   acquire_read_path pid (frame @ lock) path = framed frame (acquire_read_path pid lock path)"
  by (simp add: acquire_read_path_cases map_of_frame update_frame split: option.splits)

lemma acquire_write_path_frame:
  "map_of frame path = None \<Longrightarrow>
   acquire_write_path pid (frame @ lock) path = framed frame (acquire_write_path pid lock path)"
  by (simp add: acquire_write_path_cases map_of_frame update_frame split: option.splits)

lemma release_read_path_frame:
  "map_of frame path = None \<Longrightarrow>
   release_read_path pid (frame @ lock) path = framed frame (release_read_path pid lock path)"
  by (auto simp: release_read_path_cases map_of_frame update_frame delete_frame
      split: option.splits)

lemma release_write_path_frame:
  "map_of frame path = None \<Longrightarrow>
   release_write_path pid (frame @ lock) path = framed frame (release_write_path pid lock path)"
  by (auto simp: release_write_path_cases map_of_frame update_frame delete_frame
      split: option.splits)

lemma acquire_read_frame:
  "\<forall>p \<in> set paths. map_of frame p = None \<Longrightarrow>
   acquire_read pid (frame @ lock) paths = framed frame (acquire_read pid lock paths)"
  by (induction paths arbitrary: lock)
     (simp_all add: acquire_read_path_frame framed_def split: sum.splits)

lemma acquire_write_frame:
  "\<forall>p \<in> set paths. map_of frame p = None \<Longrightarrow>
   acquire_write pid (frame @ lock) paths = framed frame (acquire_write pid lock paths)"
  by (induction paths arbitrary: lock)
     (simp_all add: acquire_write_path_frame framed_def split: sum.splits)

lemma release_read_frame:
  "\<forall>p \<in> set paths. map_of frame p = None \<Longrightarrow>
   release_read pid (frame @ lock) paths = framed frame (release_read pid lock paths)"
  by (induction paths arbitrary: lock)
     (simp_all add: release_read_path_frame framed_def split: sum.splits)

lemma release_write_frame:
  "\<forall>p \<in> set paths. map_of frame p = None \<Longrightarrow>
   release_write pid (frame @ lock) paths = framed frame (release_write pid lock paths)"
  by (induction paths arbitrary: lock)
     (simp_all add: release_write_path_frame framed_def split: sum.splits)

lemma acquire_frame:
  assumes "\<forall>p \<in> set read \<union> set write. map_of frame p = None"
  shows "acquire pid (frame @ lock) read write = framed frame (acquire pid lock read write)"
proof -
  from assms have r: "\<forall>p \<in> set read. map_of frame p = None"
    and w: "\<forall>p \<in> set write. map_of frame p = None" by simp_all
  show ?thesis
    by (cases "acquire_read pid lock read")
       (simp_all add: acquire_def acquire_read_frame [OF r] acquire_write_frame [OF w])
qed

lemma release_frame:
  assumes "\<forall>p \<in> set read \<union> set write. map_of frame p = None"
  shows "release pid (frame @ lock) read write = framed frame (release pid lock read write)"
proof -
  from assms have r: "\<forall>p \<in> set read. map_of frame p = None"
    and w: "\<forall>p \<in> set write. map_of frame p = None" by simp_all
  show ?thesis
    by (cases "release_write pid lock write")
       (simp_all add: release_def release_read_frame [OF r] release_write_frame [OF w])
qed

text \<open>Releasing what the caller alone holds removes the entries.\<close>

lemma release_write_of_own:
  assumes "\<forall>p \<in> set paths. map_of lock p = None \<or>
             map_of lock p = Some \<lparr>writer = Some pid, readers = None\<rparr>"
  shows "\<exists>lock1. release_write pid lock paths = Inr lock1 \<and>
           (\<forall>q. map_of lock1 q = (if q \<in> set paths then None else map_of lock q))"
  using assms
proof (induction paths arbitrary: lock)
  case Nil
  then show ?case by simp
next
  case (Cons p ps)
  from Cons.prems have here: "map_of lock p = None \<or>
      map_of lock p = Some \<lparr>writer = Some pid, readers = None\<rparr>"
    by simp
  then have "\<exists>lock'. release_write_path pid lock p = Inr lock' \<and>
      map_of lock' = (map_of lock)(p := None)"
    by (auto simp: release_write_path_cases delete_conv' fun_upd_idem)
  then obtain lock' where step: "release_write_path pid lock p = Inr lock'"
    and look: "map_of lock' = (map_of lock)(p := None)"
    by blast
  from Cons.prems look have "\<forall>q \<in> set ps. map_of lock' q = None \<or>
      map_of lock' q = Some \<lparr>writer = Some pid, readers = None\<rparr>"
    by simp
  from Cons.IH [OF this] obtain lock1 where
    rest: "release_write pid lock' ps = Inr lock1" and
    final: "\<forall>q. map_of lock1 q = (if q \<in> set ps then None else map_of lock' q)"
    by blast
  from step rest have "release_write pid lock (p # ps) = Inr lock1" by simp
  moreover from final look
  have "\<forall>q. map_of lock1 q = (if q \<in> set (p # ps) then None else map_of lock q)"
    by simp
  ultimately show ?case by blast
qed

lemma release_read_of_own:
  assumes "\<forall>p \<in> set paths. map_of lock p =
             Some \<lparr>writer = None, readers = Some (replicate (count_list paths p) pid)\<rparr>"
  shows "\<exists>lock1. release_read pid lock paths = Inr lock1 \<and>
           (\<forall>q. map_of lock1 q = (if q \<in> set paths then None else map_of lock q))"
  using assms
proof (induction paths arbitrary: lock)
  case Nil
  then show ?case by simp
next
  case (Cons p ps)
  let ?n = "count_list ps p"
  from Cons.prems have here: "map_of lock p =
      Some \<lparr>writer = None, readers = Some (pid # replicate ?n pid)\<rparr>"
    by simp
  have others: "\<forall>q \<in> set ps. q \<noteq> p \<longrightarrow> map_of lock q =
      Some \<lparr>writer = None, readers = Some (replicate (count_list ps q) pid)\<rparr>"
    using Cons.prems by simp
  from here have "\<exists>lock'. release_read_path pid lock p = Inr lock' \<and> map_of lock' =
      (if ?n = 0 then (map_of lock)(p := None)
       else (map_of lock)(p \<mapsto> \<lparr>writer = None, readers = Some (replicate ?n pid)\<rparr>))"
    by (simp add: release_read_path_cases delete_conv' update_conv')
  then obtain lock' where step: "release_read_path pid lock p = Inr lock'"
    and look: "map_of lock' =
      (if ?n = 0 then (map_of lock)(p := None)
       else (map_of lock)(p \<mapsto> \<lparr>writer = None, readers = Some (replicate ?n pid)\<rparr>))"
    by blast
  have "\<forall>q \<in> set ps. map_of lock' q =
      Some \<lparr>writer = None, readers = Some (replicate (count_list ps q) pid)\<rparr>"
  proof
    fix q
    assume q: "q \<in> set ps"
    show "map_of lock' q =
        Some \<lparr>writer = None, readers = Some (replicate (count_list ps q) pid)\<rparr>"
    proof (cases "q = p")
      case True
      with q have "?n \<noteq> 0" by (simp add: count_list_0_iff)
      with True look show ?thesis by simp
    next
      case False
      with q others look show ?thesis by simp
    qed
  qed
  from Cons.IH [OF this] obtain lock1 where
    rest: "release_read pid lock' ps = Inr lock1" and
    final: "\<forall>q. map_of lock1 q = (if q \<in> set ps then None else map_of lock' q)"
    by blast
  from step rest have "release_read pid lock (p # ps) = Inr lock1" by simp
  moreover have "\<forall>q. map_of lock1 q = (if q \<in> set (p # ps) then None else map_of lock q)"
  proof
    fix q
    show "map_of lock1 q = (if q \<in> set (p # ps) then None else map_of lock q)"
    proof (cases "q = p")
      case True
      show ?thesis
      proof (cases "p \<in> set ps")
        case True
        with \<open>q = p\<close> final show ?thesis by simp
      next
        case False
        then have "?n = 0" by (simp add: count_list_0_iff)
        with False \<open>q = p\<close> final look show ?thesis by simp
      qed
    next
      case False
      with final look show ?thesis by simp
    qed
  qed
  ultimately show ?case by blast
qed

lemma cycle_from_empty:
  assumes "acquire pid [] read write = Inr lock1"
  shows "release pid lock1 read write = Inr []"
proof -
  from assms obtain lock0 where r: "acquire_read pid [] read = Inr lock0"
    and w: "acquire_write pid lock0 write = Inr lock1"
    by (auto simp: acquire_def and_then_eq_Inr)
  have l0: "map_of lock0 q =
      (if q \<in> set read
       then Some \<lparr>writer = None, readers = Some (replicate (count_list read q) pid)\<rparr>
       else None)" for q
    using acquire_read_lookup [OF r, of q] by (simp add: writer_of_def readers_of_def)
  have l1: "map_of lock1 q =
      (if q \<in> set write then Some \<lparr>writer = Some pid, readers = None\<rparr> else map_of lock0 q)" for q
    using acquire_write_lookup [OF w, of q] .
  have disjoint: "q \<in> set read \<Longrightarrow> q \<notin> set write" for q
    using read_and_write_disjoint [OF r w] .
  from l1 have "\<forall>p \<in> set write. map_of lock1 p = None \<or>
      map_of lock1 p = Some \<lparr>writer = Some pid, readers = None\<rparr>"
    by simp
  from release_write_of_own [OF this] obtain lock2 where
    rw: "release_write pid lock1 write = Inr lock2" and
    l2: "\<forall>q. map_of lock2 q = (if q \<in> set write then None else map_of lock1 q)"
    by blast
  from l2 l1 l0 disjoint have "\<forall>p \<in> set read. map_of lock2 p =
      Some \<lparr>writer = None, readers = Some (replicate (count_list read p) pid)\<rparr>"
    by simp
  from release_read_of_own [OF this] obtain lock3 where
    rr: "release_read pid lock2 read = Inr lock3" and
    l3: "\<forall>q. map_of lock3 q = (if q \<in> set read then None else map_of lock2 q)"
    by blast
  from l3 l2 l1 l0 have "map_of lock3 q = None" for q
    by simp
  then have "map_of lock3 = Map.empty"
    by (rule ext)
  then have "lock3 = []"
    by (simp only: map_of_eq_empty_iff)
  with rw rr show ?thesis by (simp add: release_def)
qed

text \<open>
  C7. When none of the read and write paths has an entry and the acquire of one process
  completes, the matching release completes as well and gives back the starting state
  itself, which has no entry for any of those paths; in between, every one of the paths
  has an entry.
\<close>

theorem acquire_then_release_restores:
  assumes "\<forall>p \<in> set read \<union> set write. \<not> contains lock p"
      and "acquire pid lock read write = Inr lock1"
  shows "release pid lock1 read write = Inr lock
       \<and> (\<forall>p \<in> set read \<union> set write. contains lock1 p)
       \<and> (\<forall>lock2. release pid lock1 read write = Inr lock2 \<longrightarrow>
            (\<forall>p \<in> set read \<union> set write. \<not> contains lock2 p))"
proof -
  from assms(1) have free: "\<forall>p \<in> set read \<union> set write. map_of lock p = None"
    by (simp add: contains_def)
  from acquire_frame [OF free, of pid "[]"] assms(2)
  obtain held where a: "acquire pid [] read write = Inr held" and l1: "lock1 = lock @ held"
    by (cases "acquire pid [] read write") auto
  from cycle_from_empty [OF a] release_frame [OF free, of pid held]
  have restored: "release pid lock1 read write = Inr lock"
    by (simp add: l1)
  from a obtain lock0 where r: "acquire_read pid [] read = Inr lock0"
    and w: "acquire_write pid lock0 write = Inr held"
    by (auto simp: acquire_def and_then_eq_Inr)
  have "\<forall>p \<in> set read \<union> set write. map_of held p \<noteq> None"
    using acquire_write_lookup [OF w] acquire_read_lookup [OF r] by auto
  then have "\<forall>p \<in> set read \<union> set write. contains lock1 p"
    by (auto simp: contains_def l1)
  with restored assms(1) show ?thesis by simp
qed

theorem acquire_then_release_restores_witness:
  "acquire 200 [(''data/bar'', \<lparr>writer = Some 100, readers = None\<rparr>)] [''data/foo''] [''model'']
     = Inr [(''data/bar'', \<lparr>writer = Some 100, readers = None\<rparr>),
            (''data/foo'', \<lparr>writer = None, readers = Some [200]\<rparr>),
            (''model'', \<lparr>writer = Some 200, readers = None\<rparr>)]
   \<and> release 200 [(''data/bar'', \<lparr>writer = Some 100, readers = None\<rparr>),
                  (''data/foo'', \<lparr>writer = None, readers = Some [200]\<rparr>),
                  (''model'', \<lparr>writer = Some 200, readers = None\<rparr>)] [''data/foo''] [''model'']
     = Inr [(''data/bar'', \<lparr>writer = Some 100, readers = None\<rparr>)]"
proof -
  let ?l = "[(''data/bar'', \<lparr>writer = Some 100, readers = None\<rparr>)]"
  let ?l1 = "[(''data/bar'', \<lparr>writer = Some 100, readers = None\<rparr>),
              (''data/foo'', \<lparr>writer = None, readers = Some [200]\<rparr>),
              (''model'', \<lparr>writer = Some 200, readers = None\<rparr>)]"
  have free: "\<forall>p \<in> set [''data/foo''] \<union> set [''model'']. \<not> contains ?l p"
    by (simp add: contains_def)
  have a: "acquire 200 ?l [''data/foo''] [''model''] = Inr ?l1"
    by (simp add: acquire_def acquire_read_path_cases acquire_write_path_cases)
  from acquire_then_release_restores [OF free a] a show ?thesis by blast
qed

section \<open>The document on disk\<close>

lemma validate_ints_dump: "validate_ints (map PInt rs) = Inr rs"
  by (induction rs) simp_all

lemma validate_entry_dump: "validate_entry (dump_entry e) = Inr e"
  by (cases e) (simp add: dump_entry_def validate_ints_dump split: option.splits)

lemma validate_items_dump:
  "validate_items (map (\<lambda>(path, e). (path, dump_entry e)) lock) = Inr lock"
  by (induction lock) (auto simp: validate_entry_dump)

lemma COMPLIED_SCHEMA_dump: "COMPLIED_SCHEMA (json_dump lock) = Inr lock"
  by (simp add: json_dump_def validate_items_dump)

subsection \<open>What the schema accepts\<close>
















subsection \<open>Acquiring what nobody holds\<close>




subsection \<open>All or nothing\<close>

text \<open>
  C2. An acquire that raises, in the read step or in the write step, leaves the file
  as it was before the call; in particular a write step that fails after the read step
  has registered the caller in the state in memory saves none of it.
\<close>

theorem failed_acquire_saves_nothing:
  assumes "rwlock_enter convert_to_unicode f pid read write = (Inl e, f1)"
  shows "f1 = f
       \<and> (\<forall>rwlock lock lock0 m.
            read_document f = Inr rwlock \<and>
            COMPLIED_SCHEMA (convert_to_unicode rwlock) = Inr lock \<and>
            acquire_read pid lock read = Inr lock0 \<and>
            acquire_write pid lock0 write = Inl (LockError m) \<longrightarrow>
            rwlock_enter convert_to_unicode f pid read write = (Inl (LockError m), f))"
  using assms
  by (auto simp: rwlock_enter_def rwlock_cm_def acquire_def split: sum.splits)

theorem failed_acquire_saves_nothing_witness:
  "rwlock_enter (\<lambda>d. d) (Parsed (PDict [(''model'', PDict [(''writer'', PInt 300)])])) 100
     [''data/foo''] [''model'']
     = (Inl (LockError (Busy_written ''model'' 300)),
        Parsed (PDict [(''model'', PDict [(''writer'', PInt 300)])]))
   \<and> acquire_read 100 [(''model'', \<lparr>writer = Some 300, readers = None\<rparr>)] [''data/foo'']
     = Inr [(''model'', \<lparr>writer = Some 300, readers = None\<rparr>),
            (''data/foo'', \<lparr>writer = None, readers = Some [100]\<rparr>)]"
proof -
  let ?f = "Parsed (PDict [(''model'', PDict [(''writer'', PInt 300)])])"
  have r: "acquire_read 100 [(''model'', \<lparr>writer = Some 300, readers = None\<rparr>)] [''data/foo'']
     = Inr [(''model'', \<lparr>writer = Some 300, readers = None\<rparr>),
            (''data/foo'', \<lparr>writer = None, readers = Some [100]\<rparr>)]"
    by (simp add: acquire_read_path_cases)
  have "acquire 100 [(''model'', \<lparr>writer = Some 300, readers = None\<rparr>)]
      [''data/foo''] [''model''] = Inl (LockError (Busy_written ''model'' 300))"
    by (simp add: acquire_def acquire_read_path_cases acquire_write_path_cases has_writer_def)
  then have "\<exists>f1. rwlock_enter (\<lambda>d. d) ?f 100 [''data/foo''] [''model'']
      = (Inl (LockError (Busy_written ''model'' 300)), f1)"
    by (simp add: rwlock_enter_def rwlock_cm_def read_document_def)
  then obtain f1 where a: "rwlock_enter (\<lambda>d. d) ?f 100 [''data/foo''] [''model'']
      = (Inl (LockError (Busy_written ''model'' 300)), f1)" by blast
  from failed_acquire_saves_nothing [OF a] have "f1 = ?f" by blast
  with a r show ?thesis by blast
qed

subsection \<open>Loading the document\<close>




section \<open>The repository lock\<close>

text \<open>
  C9. \<open>lock\<close> makes one attempt at once. If the file is free it returns holding it. If
  not, it sleeps 5 seconds and makes exactly one more attempt: it returns holding the
  file if that one succeeds, and otherwise raises the \<open>LockError\<close> with the fixed message
  (another DVC process seems to be running; if not, remove \<open>.dvc/lock\<close> by hand). No
  call makes more than two attempts or sleeps more than once.
\<close>

theorem lock_retries_once:
  "Lock_lock taken g =
     (if \<not> taken (count_list (trace g) Attempt)
      then (Inr (), g\<lparr>trace := trace g @ [Attempt], held := True\<rparr>)
      else if \<not> taken (Suc (count_list (trace g) Attempt))
      then (Inr (), g\<lparr>trace := trace g @ [Attempt, Sleep 5, Attempt], held := True\<rparr>)
      else (Inl (LockError (Fixed FAILED_TO_LOCK_MESSAGE)),
            g\<lparr>trace := trace g @ [Attempt, Sleep 5, Attempt]\<rparr>))
   \<and> count_list (trace (snd (Lock_lock taken g))) Attempt \<le> count_list (trace g) Attempt + 2
   \<and> count_list (trace (snd (Lock_lock taken g))) (Sleep 5) \<le> count_list (trace g) (Sleep 5) + 1
   \<and> FAILED_TO_LOCK_MESSAGE =
       ''cannot perform the command because another DVC process seems to be running on this project. If that is not the case, manually remove `.dvc/lock` and try again.''"
  by (simp add: Lock_lock_def do_lock_def sleep_def DEFAULT_TIMEOUT_def Let_def
      FAILED_TO_LOCK_MESSAGE_def)

theorem lock_retries_once_witness:
  "Lock_lock (\<lambda>n. True) \<lparr>held = False, trace = []\<rparr> =
     (Inl (LockError (Fixed FAILED_TO_LOCK_MESSAGE)),
      \<lparr>held = False, trace = [Attempt, Sleep 5, Attempt]\<rparr>)
   \<and> Lock_lock (\<lambda>n. n = 0) \<lparr>held = False, trace = []\<rparr> =
     (Inr (), \<lparr>held = True, trace = [Attempt, Sleep 5, Attempt]\<rparr>)
   \<and> Lock_lock (\<lambda>n. False) \<lparr>held = False, trace = []\<rparr> =
     (Inr (), \<lparr>held = True, trace = [Attempt]\<rparr>)"
  using lock_retries_once [of "\<lambda>n. True" "\<lparr>held = False, trace = []\<rparr>"]
    lock_retries_once [of "\<lambda>n. n = 0" "\<lparr>held = False, trace = []\<rparr>"]
    lock_retries_once [of "\<lambda>n. False" "\<lparr>held = False, trace = []\<rparr>"]
  by simp

section \<open>The states in memory and the files\<close>

text \<open>
  With a conversion that returns what \<open>json.dump\<close> wrote as it is, every file the two
  blocks leave behind holds a reachable state, so that what is proved of the reachable
  states holds of the entries of the saved document.
\<close>

lemma saved_reachable:
  assumes "\<forall>lock. convert_to_unicode (json_dump lock) = json_dump lock"
      and "saved convert_to_unicode f"
  shows "f = Missing \<or> (\<exists>lock. f = Parsed (json_dump lock) \<and> reachable lock)"
  using assms(2)
proof (induction rule: saved.induct)
  case saved_start
  show ?case by simp
next
  case (saved_enter f pid read "write" r f1)
  have empty: "convert_to_unicode (PDict []) = PDict []"
    using assms(1) [rule_format, of "[]"] by (simp add: json_dump_def)
  from saved_enter.IH show ?case
  proof
    assume "f = Missing"
    with saved_enter.hyps(2) empty show ?thesis
      by (auto simp: rwlock_enter_def rwlock_cm_def read_document_def json_dump_def split: sum.splits
          intro: reachable_acquire [OF reachable_empty])
  next
    assume "\<exists>lock. f = Parsed (json_dump lock) \<and> reachable lock"
    then obtain lock where f: "f = Parsed (json_dump lock)" and r: "reachable lock" by blast
    with saved_enter.hyps(2) assms(1) show ?thesis
      by (auto simp: rwlock_enter_def rwlock_cm_def read_document_def COMPLIED_SCHEMA_dump split: sum.splits
          intro: reachable_acquire [OF r])
  qed
next
  case (saved_exit f pid read "write" r f1)
  have empty: "convert_to_unicode (PDict []) = PDict []"
    using assms(1) [rule_format, of "[]"] by (simp add: json_dump_def)
  from saved_exit.IH show ?case
  proof
    assume "f = Missing"
    with saved_exit.hyps(2) empty show ?thesis
      by (auto simp: rwlock_exit_def rwlock_cm_def read_document_def json_dump_def split: sum.splits
          intro: reachable_release [OF reachable_empty])
  next
    assume "\<exists>lock. f = Parsed (json_dump lock) \<and> reachable lock"
    then obtain lock where f: "f = Parsed (json_dump lock)" and r: "reachable lock" by blast
    with saved_exit.hyps(2) assms(1) show ?thesis
      by (auto simp: rwlock_exit_def rwlock_cm_def read_document_def COMPLIED_SCHEMA_dump split: sum.splits
          intro: reachable_release [OF r])
  qed
qed

lemma saved_exclusive:
  assumes "\<forall>lock. convert_to_unicode (json_dump lock) = json_dump lock"
      and "saved convert_to_unicode (Parsed d)"
      and "COMPLIED_SCHEMA d = Inr lock" and "(path, e) \<in> set lock"
  shows "writer e = None \<or> readers e = None"
proof -
  from saved_reachable [OF assms(1,2)] obtain lock' where
    d: "d = json_dump lock'" and r: "reachable lock'" by auto
  from assms(3) d have "lock = lock'" by (simp add: COMPLIED_SCHEMA_dump)
  with r have "all_exclusive lock" by (simp add: reachable_exclusive)
  with assms(4) show ?thesis
    by (auto simp: all_exclusive_def exclusive_def list_all_iff)
qed

end
